theory Spec2Isabelle
  imports Main "HOL-Library.Multiset"
begin

section \<open>utils.Clamp and the worker count\<close>

text \<open>
  \<^verbatim>\<open>func Clamp[T cmp.Ordered](value, minValue, maxValue T) T {
      return min(max(value, minValue), maxValue) }\<close>
  The function is generic over every ordered type; the model is generic over every linear
  order.  Go's \<^verbatim>\<open>int\<close> is modelled by \<open>int\<close>: \<open>min\<close> and \<open>max\<close> never overflow.
\<close>

definition Clamp :: "'a::linorder \<Rightarrow> 'a \<Rightarrow> 'a \<Rightarrow> 'a" where
  "Clamp val minValue maxValue = min (max val minValue) maxValue"

text \<open>
  The context-aware pool computes its worker count as
  \<^verbatim>\<open>maxWorkers = utils.Clamp(tasksLen, 1, maxWorkers)\<close>:
  the task count is passed as the value and the requested count as the upper bound.
\<close>

definition poolWorkers :: "'t list \<Rightarrow> int \<Rightarrow> int" where
  "poolWorkers tasks maxWorkers = Clamp (int (length tasks)) 1 maxWorkers"

text \<open>
  The older pool without a context computes
  \<^verbatim>\<open>maxWorkers = min(max(maxWorkers, 1), tasksLen)\<close>.
\<close>

definition legacyWorkers :: "'t list \<Rightarrow> int \<Rightarrow> int" where
  "legacyWorkers tasks maxWorkers = min (max maxWorkers 1) (int (length tasks))"

text \<open>
  \<^verbatim>\<open>for range maxWorkers\<close> runs its body \<open>maxWorkers\<close> times, and not at all when
  \<open>maxWorkers\<close> is zero or negative.
\<close>

definition spawned :: "'t list \<Rightarrow> int \<Rightarrow> nat" where
  "spawned tasks maxWorkers = nat (poolWorkers tasks maxWorkers)"

section \<open>The state of one call of the context-aware RunWorkerPool\<close>

text \<open>
  A task function takes the context, the task and the worker's store, may update the store
  in place and returns an error or nil.  The context is modelled by the one thing a task
  function can read from it, whether \<^verbatim>\<open>ctx.Done()\<close> is closed; the store is a map,
  returned updated; the error is \<open>None\<close> for nil.  A task function is assumed to return.
\<close>

type_synonym ('t, 'k, 'v, 'e) taskfn =
  "bool \<Rightarrow> 't \<Rightarrow> ('k \<rightharpoonup> 'v) \<Rightarrow> 'e option \<times> ('k \<rightharpoonup> 'v)"

text \<open>
  A worker goroutine is at its \<^verbatim>\<open>select\<close> (\<open>Idle\<close>), inside a call of \<^verbatim>\<open>fn\<close> on a
  task it has received (\<open>Running\<close>), or has returned (\<open>Exited\<close>).  \<open>store\<close> is the map made by
  \<^verbatim>\<open>store := make(map[K]V)\<close>.  \<open>hist\<close> is a history variable: the calls of \<^verbatim>\<open>fn\<close> the
  worker has completed, each with what the context showed and the task.
\<close>

datatype 't wpc = Idle | Running 't | Exited

record ('t, 'k, 'v) worker =
  pc :: "'t wpc"
  store :: "'k \<rightharpoonup> 'v"
  hist :: "(bool \<times> 't) list"

text \<open>
  \<open>cancelled\<close>: \<^verbatim>\<open>ctx.Done()\<close> is closed.  \<open>pending\<close>: the tasks the dispatcher's loop has
  still to send.  \<open>tasksChan\<close>, \<open>errorsChan\<close>: the buffers of the two channels, oldest element
  first, with their closed flags.  \<open>todo\<close>: the iterations left of the collector's
  \<^verbatim>\<open>for range tasks\<close>; \<open>errs\<close>: the slice it appends to.  \<open>panicked\<close>: a goroutine has
  panicked, which ends the program.  \<open>calls\<close> is a history variable: the tasks \<^verbatim>\<open>fn\<close> has
  been invoked on, in the order of invocation.
\<close>

record ('t, 'k, 'v, 'e) pool =
  cancelled :: bool
  pending :: "'t list"
  tasksChan :: "'t list"
  tasksClosed :: bool
  workers :: "('t, 'k, 'v) worker list"
  errorsChan :: "'e option list"
  errorsClosed :: bool
  todo :: nat
  errs :: "'e option list"
  panicked :: bool
  calls :: "'t list"

definition newWorker :: "('t, 'k, 'v) worker" where
  "newWorker = \<lparr>pc = Idle, store = Map.empty, hist = []\<rparr>"

text \<open>
  The state once the call has made its channels and started its goroutines (lines 17 to 56).
  A context that is already cancelled at the call is the run whose first step is the
  cancellation.
\<close>

definition init_pool :: "'t list \<Rightarrow> int \<Rightarrow> ('t, 'k, 'v, 'e) pool" where
  "init_pool tasks maxWorkers =
     \<lparr>cancelled = False, pending = tasks, tasksChan = [], tasksClosed = False,
      workers = replicate (spawned tasks maxWorkers) newWorker,
      errorsChan = [], errorsClosed = False,
      todo = length tasks, errs = [], panicked = False, calls = []\<rparr>"

section \<open>The steps of the goroutines\<close>

text \<open>
  One rule for each thing a goroutine can do next; \<open>cap\<close> is the capacity of both channels
  (\<^verbatim>\<open>tasksLen\<close>), \<open>fn\<close> is \<open>None\<close> for a nil function.  A \<^verbatim>\<open>select\<close> with several ready
  cases takes any of them, so the rules of one \<^verbatim>\<open>select\<close> overlap.

  Dispatcher (lines 41 to 50): \<open>disp_send\<close> is the case \<^verbatim>\<open>tasksChan <- task\<close>, \<open>disp_cancel\<close>
  the case \<^verbatim>\<open><-ctx.Done()\<close>, \<open>disp_close\<close> the end of the loop; the deferred close runs at
  both returns.
  Worker (lines 25 to 38): \<open>work_cancel\<close> is the case \<^verbatim>\<open><-ctx.Done()\<close>, \<open>work_closed\<close> the
  receive from the closed and drained channel, \<open>work_recv\<close> the receive of a task, after
  which \<^verbatim>\<open>fn\<close> is invoked (\<open>work_nil\<close> when it is nil), \<open>work_send\<close> the return of \<^verbatim>\<open>fn\<close>
  and the send of its result (\<open>work_send_closed\<close>: a send on a closed channel panics).
  A call of \<^verbatim>\<open>fn\<close> lasts from \<open>work_recv\<close> to \<open>work_send\<close>, so the context can be cancelled
  while it runs; what the call reads from the context is its state when the call returns.
  Lines 52 to 55: \<open>wait_close\<close>.  Collector (lines 57 to 59): \<open>coll_recv\<close>, and \<open>coll_zero\<close>,
  the receive of the zero value from the closed and drained channel.
\<close>

inductive prog_step ::
  "('t, 'k, 'v, 'e) taskfn option \<Rightarrow> nat \<Rightarrow> ('t, 'k, 'v, 'e) pool \<Rightarrow> ('t, 'k, 'v, 'e) pool \<Rightarrow> bool"
  for fn :: "('t, 'k, 'v, 'e) taskfn option" and cap :: nat
where
  disp_send:
    "\<not> panicked s \<Longrightarrow> \<not> tasksClosed s \<Longrightarrow> pending s = t # ts \<Longrightarrow> length (tasksChan s) < cap \<Longrightarrow>
     prog_step fn cap s (s\<lparr>pending := ts, tasksChan := tasksChan s @ [t]\<rparr>)"
| disp_cancel:
    "\<not> panicked s \<Longrightarrow> \<not> tasksClosed s \<Longrightarrow> pending s \<noteq> [] \<Longrightarrow> cancelled s \<Longrightarrow>
     prog_step fn cap s (s\<lparr>tasksClosed := True\<rparr>)"
| disp_close:
    "\<not> panicked s \<Longrightarrow> \<not> tasksClosed s \<Longrightarrow> pending s = [] \<Longrightarrow>
     prog_step fn cap s (s\<lparr>tasksClosed := True\<rparr>)"
| work_cancel:
    "\<not> panicked s \<Longrightarrow> i < length (workers s) \<Longrightarrow> pc (workers s ! i) = Idle \<Longrightarrow> cancelled s \<Longrightarrow>
     prog_step fn cap s (s\<lparr>workers := (workers s)[i := (workers s ! i)\<lparr>pc := Exited\<rparr>]\<rparr>)"
| work_closed:
    "\<not> panicked s \<Longrightarrow> i < length (workers s) \<Longrightarrow> pc (workers s ! i) = Idle \<Longrightarrow>
     tasksChan s = [] \<Longrightarrow> tasksClosed s \<Longrightarrow>
     prog_step fn cap s (s\<lparr>workers := (workers s)[i := (workers s ! i)\<lparr>pc := Exited\<rparr>]\<rparr>)"
| work_recv:
    "\<not> panicked s \<Longrightarrow> i < length (workers s) \<Longrightarrow> pc (workers s ! i) = Idle \<Longrightarrow>
     tasksChan s = t # ts \<Longrightarrow> fn = Some f \<Longrightarrow>
     prog_step fn cap s
       (s\<lparr>tasksChan := ts, workers := (workers s)[i := (workers s ! i)\<lparr>pc := Running t\<rparr>],
          calls := calls s @ [t]\<rparr>)"
| work_nil:
    "\<not> panicked s \<Longrightarrow> i < length (workers s) \<Longrightarrow> pc (workers s ! i) = Idle \<Longrightarrow>
     tasksChan s = t # ts \<Longrightarrow> fn = None \<Longrightarrow>
     prog_step fn cap s (s\<lparr>tasksChan := ts, panicked := True\<rparr>)"
| work_send:
    "\<not> panicked s \<Longrightarrow> i < length (workers s) \<Longrightarrow> pc (workers s ! i) = Running t \<Longrightarrow>
     fn = Some f \<Longrightarrow> f (cancelled s) t (store (workers s ! i)) = (e, st) \<Longrightarrow>
     \<not> errorsClosed s \<Longrightarrow> length (errorsChan s) < cap \<Longrightarrow>
     prog_step fn cap s
       (s\<lparr>workers := (workers s)[i := \<lparr>pc = Idle, store = st,
                                       hist = hist (workers s ! i) @ [(cancelled s, t)]\<rparr>],
          errorsChan := errorsChan s @ [e]\<rparr>)"
| work_send_closed:
    "\<not> panicked s \<Longrightarrow> i < length (workers s) \<Longrightarrow> pc (workers s ! i) = Running t \<Longrightarrow>
     errorsClosed s \<Longrightarrow>
     prog_step fn cap s (s\<lparr>panicked := True\<rparr>)"
| wait_close:
    "\<not> panicked s \<Longrightarrow> \<not> errorsClosed s \<Longrightarrow> list_all (\<lambda>w. pc w = Exited) (workers s) \<Longrightarrow>
     prog_step fn cap s (s\<lparr>errorsClosed := True\<rparr>)"
| coll_recv:
    "\<not> panicked s \<Longrightarrow> 0 < todo s \<Longrightarrow> errorsChan s = e # es \<Longrightarrow>
     prog_step fn cap s (s\<lparr>errorsChan := es, todo := todo s - 1, errs := errs s @ [e]\<rparr>)"
| coll_zero:
    "\<not> panicked s \<Longrightarrow> 0 < todo s \<Longrightarrow> errorsChan s = [] \<Longrightarrow> errorsClosed s \<Longrightarrow>
     prog_step fn cap s (s\<lparr>todo := todo s - 1, errs := errs s @ [None]\<rparr>)"

text \<open>The caller cancels the context: at any moment, once.\<close>

definition ctx_cancel :: "('t, 'k, 'v, 'e) pool \<Rightarrow> ('t, 'k, 'v, 'e) pool \<Rightarrow> bool" where
  "ctx_cancel s s' = (\<not> cancelled s \<and> s' = s\<lparr>cancelled := True\<rparr>)"

definition pool_step ::
  "('t, 'k, 'v, 'e) taskfn option \<Rightarrow> nat \<Rightarrow> ('t, 'k, 'v, 'e) pool \<Rightarrow> ('t, 'k, 'v, 'e) pool \<Rightarrow> bool"
where
  "pool_step fn cap s s' = (prog_step fn cap s s' \<or> ctx_cancel s s')"

text \<open>The states a call can be in: those some interleaving of the steps leads to.\<close>

definition reachable ::
  "('t, 'k, 'v, 'e) taskfn option \<Rightarrow> 't list \<Rightarrow> int \<Rightarrow> ('t, 'k, 'v, 'e) pool \<Rightarrow> bool"
where
  "reachable fn tasks maxWorkers s =
     (pool_step fn (length tasks))\<^sup>*\<^sup>* (init_pool tasks maxWorkers) s"

text \<open>
  The call returns when the collector's loop has run \<^verbatim>\<open>len(tasks)\<close> times.  \<open>must_return\<close>
  holds of a state from which every run returns: the state has returned, or some goroutine
  can take a step and whatever step is taken next (by a goroutine or by the caller
  cancelling) leads to a state from which every run returns.
\<close>

definition returned :: "('t, 'k, 'v, 'e) pool \<Rightarrow> bool" where
  "returned s = (todo s = 0 \<and> \<not> panicked s)"

inductive must_return ::
  "('t, 'k, 'v, 'e) taskfn option \<Rightarrow> nat \<Rightarrow> ('t, 'k, 'v, 'e) pool \<Rightarrow> bool"
  for fn :: "('t, 'k, 'v, 'e) taskfn option" and cap :: nat
where
  now: "returned s \<Longrightarrow> must_return fn cap s"
| later: "prog_step fn cap s s0 \<Longrightarrow> (\<And>s'. pool_step fn cap s s' \<Longrightarrow> must_return fn cap s') \<Longrightarrow>
          must_return fn cap s"

section \<open>RunWorkerPool\<close>

text \<open>
  A Go slice is nil or holds elements.  \<open>RunWorkerPool fn tasks maxWorkers (r, log)\<close>: the
  call can return \<open>r\<close>, having invoked \<^verbatim>\<open>fn\<close> on the tasks \<open>log\<close>.  Lines 13 to 15 return
  \<^verbatim>\<open>[]error{}\<close> for no tasks, before anything else is made or started.
\<close>

datatype 'a slice = NilSlice | Slice "'a list"

inductive RunWorkerPool ::
  "('t, 'k, 'v, 'e) taskfn option \<Rightarrow> 't list \<Rightarrow> int \<Rightarrow> 'e option slice \<times> 't list \<Rightarrow> bool"
where
  no_tasks: "tasks = [] \<Longrightarrow> RunWorkerPool fn tasks maxWorkers (Slice [], [])"
| collected: "tasks \<noteq> [] \<Longrightarrow> reachable fn tasks maxWorkers s \<Longrightarrow> returned s \<Longrightarrow>
     RunWorkerPool fn tasks maxWorkers (Slice (errs s), calls s)"

section \<open>The task functions of the tests\<close>

text \<open>
  The closures of \<^verbatim>\<open>TestRunWorkerPool\<close>.  Their counters outside the pool
  (\<^verbatim>\<open>executeCount\<close>, \<^verbatim>\<open>startedCount\<close>) count invocations, which \<open>calls\<close> records.
  \<open>fn_ErrorCounting\<close>: \<^verbatim>\<open>if task%2 == 0 { return fmt.Errorf("error-on-%d", task) }\<close>.
  \<open>fn_StorePersistence\<close>: \<^verbatim>\<open>store["sum"] += 1\<close>, where a missing key reads as 0, then
  \<^verbatim>\<open>if task == "c" && store["sum"] != 3 { return errors.New("persistence-failed") }\<close>.
  \<open>fn_Cancellation\<close>: \<^verbatim>\<open>ctx.Err()\<close> when the context is done, nil after the sleep.
\<close>

datatype test_error = ErrorOn int | PersistenceFailed | Canceled

definition fn_ErrorCounting :: "(int, string, int, test_error) taskfn" where
  "fn_ErrorCounting c task st = (if task mod 2 = 0 then Some (ErrorOn task) else None, st)"

definition bump :: "'k \<Rightarrow> ('k \<rightharpoonup> int) \<Rightarrow> ('k \<rightharpoonup> int)" where
  "bump k st = st(k \<mapsto> (case st k of None \<Rightarrow> 0 | Some v \<Rightarrow> v) + 1)"

definition fn_StorePersistence :: "(string, string, int, test_error) taskfn" where
  "fn_StorePersistence c task st =
     (if task = ''c'' \<and> bump ''sum'' st ''sum'' \<noteq> Some 3 then Some PersistenceFailed else None,
      bump ''sum'' st)"

definition fn_Cancellation :: "(int, string, int, test_error) taskfn" where
  "fn_Cancellation c task st = (if c then Some Canceled else None, st)"

section \<open>Every run returns\<close>

lemma sum_list_map_update:
  fixes f :: "'a \<Rightarrow> 'b::comm_monoid_add"
  shows "i < length xs \<Longrightarrow> sum_list (map f (xs[i := x])) + f (xs ! i) = sum_list (map f xs) + f x"
  by (induction xs arbitrary: i) (auto simp: nth_Cons' ac_simps split: nat.splits)

fun rank :: "'t wpc \<Rightarrow> nat" where
  "rank Idle = 1"
| "rank (Running t) = 3"
| "rank Exited = 0"

definition pool_measure :: "('t, 'k, 'v, 'e) pool \<Rightarrow> nat" where
  "pool_measure s =
     (if cancelled s then 0 else 1) + (if tasksClosed s then 0 else 1) +
     4 * length (pending s) + 3 * length (tasksChan s) +
     sum_list (map (\<lambda>w. rank (pc w)) (workers s)) + length (errorsChan s) + 2 * todo s +
     (if errorsClosed s then 0 else 1) + (if panicked s then 0 else 1)"

lemma prog_step_measure: "prog_step fn cap s s' \<Longrightarrow> pool_measure s' < pool_measure s"
proof (induction rule: prog_step.induct)
  case (work_cancel s i)
  then show ?case
    using sum_list_map_update [of i "workers s" "\<lambda>w. rank (pc w)" "(workers s ! i)\<lparr>pc := Exited\<rparr>"]
    by (simp add: pool_measure_def)
next
  case (work_closed s i)
  then show ?case
    using sum_list_map_update [of i "workers s" "\<lambda>w. rank (pc w)" "(workers s ! i)\<lparr>pc := Exited\<rparr>"]
    by (simp add: pool_measure_def)
next
  case (work_recv s i t ts f)
  then show ?case
    using sum_list_map_update [of i "workers s" "\<lambda>w. rank (pc w)" "(workers s ! i)\<lparr>pc := Running t\<rparr>"]
    by (simp add: pool_measure_def)
next
  case (work_send s i t f e st)
  then show ?case
    using sum_list_map_update [of i "workers s" "\<lambda>w. rank (pc w)"
        "\<lparr>pc = Idle, store = st, hist = hist (workers s ! i) @ [(cancelled s, t)]\<rparr>"]
    by (simp add: pool_measure_def)
qed (auto simp: pool_measure_def)

lemma pool_step_measure: "pool_step fn cap s s' \<Longrightarrow> pool_measure s' < pool_measure s"
  unfolding pool_step_def
proof (elim disjE)
  assume "ctx_cancel s s'"
  then show ?thesis by (auto simp: ctx_cancel_def pool_measure_def)
qed (rule prog_step_measure)

definition pool_safe :: "('t, 'k, 'v, 'e) pool \<Rightarrow> bool" where
  "pool_safe s = (\<not> panicked s \<and> (errorsClosed s \<longrightarrow> list_all (\<lambda>w. pc w = Exited) (workers s)))"

lemma list_all_update:
  "list_all P xs \<Longrightarrow> P x \<Longrightarrow> list_all P (xs[i := x])"
  by (induction xs arbitrary: i) (auto split: nat.splits)

lemma list_all_nthD: "list_all P xs \<Longrightarrow> i < length xs \<Longrightarrow> P (xs ! i)"
  by (simp add: list_all_length)

lemma prog_step_safe:
  "prog_step (Some f) cap s s' \<Longrightarrow> pool_safe s \<Longrightarrow> pool_safe s'"
proof (induction rule: prog_step.induct)
  case (work_cancel s i)
  then show ?case by (auto simp: pool_safe_def intro: list_all_update)
next
  case (work_closed s i)
  then show ?case by (auto simp: pool_safe_def intro: list_all_update)
next
  case (work_recv s i t ts g)
  then show ?case by (auto simp: pool_safe_def dest: list_all_nthD)
next
  case (work_send s i t g e st)
  then show ?case by (auto simp: pool_safe_def)
next
  case (work_send_closed s i t)
  then show ?case by (auto simp: pool_safe_def dest: list_all_nthD)
qed (auto simp: pool_safe_def)

lemma pool_step_safe:
  "pool_step (Some f) cap s s' \<Longrightarrow> pool_safe s \<Longrightarrow> pool_safe s'"
  unfolding pool_step_def
  by (auto simp: ctx_cancel_def pool_safe_def dest: prog_step_safe)

lemma init_pool_safe: "pool_safe (init_pool tasks maxWorkers)"
  by (simp add: pool_safe_def init_pool_def)

lemma worker_can_step:
  assumes "\<not> panicked s" and "i < length (workers s)" and "pc (workers s ! i) \<noteq> Exited"
    and "errorsChan s = []" and "\<not> errorsClosed s" and "0 < cap"
  shows "\<exists>s'. prog_step (Some f) cap s s'"
proof (cases "pc (workers s ! i)")
  case Idle
  show ?thesis
  proof (cases "cancelled s")
    case True
    with assms Idle show ?thesis by (blast intro: prog_step.work_cancel)
  next
    case False
    show ?thesis
    proof (cases "tasksChan s")
      case (Cons t ts)
      with assms Idle show ?thesis by (blast intro: prog_step.work_recv)
    next
      case Nil
      show ?thesis
      proof (cases "tasksClosed s")
        case True
        with assms Idle Nil show ?thesis by (blast intro: prog_step.work_closed)
      next
        case False
        show ?thesis
        proof (cases "pending s")
          case Nil
          with assms False show ?thesis by (blast intro: prog_step.disp_close)
        next
          case (Cons t ts)
          with assms False \<open>tasksChan s = []\<close> show ?thesis
            using prog_step.disp_send [of s t ts cap "Some f"] by auto
        qed
      qed
    qed
  qed
next
  case (Running t)
  obtain e st where "f (cancelled s) t (store (workers s ! i)) = (e, st)"
    by (cases "f (cancelled s) t (store (workers s ! i))")
  with assms Running show ?thesis
    using prog_step.work_send [where fn = "Some f" and f = f and s = s and i = i and t = t
        and e = e and st = st and cap = cap]
    by auto
next
  case Exited
  with assms show ?thesis by simp
qed

lemma progress:
  assumes "pool_safe s" and "\<not> returned s" and "0 < cap"
  shows "\<exists>s'. prog_step (Some f) cap s s'"
proof -
  from assms have np: "\<not> panicked s" and td: "0 < todo s"
    by (auto simp: pool_safe_def returned_def)
  show ?thesis
  proof (cases "errorsChan s")
    case (Cons e es)
    with np td show ?thesis by (blast intro: prog_step.coll_recv)
  next
    case Nil
    show ?thesis
    proof (cases "errorsClosed s")
      case True
      with np td Nil show ?thesis by (blast intro: prog_step.coll_zero)
    next
      case False
      show ?thesis
      proof (cases "list_all (\<lambda>w. pc w = Exited) (workers s)")
        case True
        with np False show ?thesis by (blast intro: prog_step.wait_close)
      next
        case nall: False
        then obtain i where "i < length (workers s)" "pc (workers s ! i) \<noteq> Exited"
          by (auto simp: list_all_length)
        with np Nil False \<open>0 < cap\<close> show ?thesis by (blast intro: worker_can_step)
      qed
    qed
  qed
qed

lemma safe_must_return:
  assumes "0 < cap"
  shows "pool_safe s \<Longrightarrow> must_return (Some f) cap s"
proof (induction "pool_measure s" arbitrary: s rule: less_induct)
  case less
  show ?case
  proof (cases "returned s")
    case True
    then show ?thesis by (rule must_return.now)
  next
    case False
    with less.prems assms obtain s0 where s0: "prog_step (Some f) cap s s0"
      using progress by blast
    show ?thesis
    proof (rule must_return.later [OF s0])
      fix s' assume st: "pool_step (Some f) cap s s'"
      show "must_return (Some f) cap s'"
        using less.hyps [OF pool_step_measure [OF st] pool_step_safe [OF st less.prems]] .
    qed
  qed
qed

section \<open>Invariants of every run\<close>

lemma reachable_induct [consumes 1, case_names init step]:
  assumes "reachable fn tasks maxWorkers s"
    and "P (init_pool tasks maxWorkers)"
    and "\<And>s s'. reachable fn tasks maxWorkers s \<Longrightarrow> P s \<Longrightarrow>
            pool_step fn (length tasks) s s' \<Longrightarrow> P s'"
  shows "P s"
  using assms(1) unfolding reachable_def
proof (induction rule: rtranclp_induct)
  case base
  show ?case by (rule assms(2))
next
  case (step y z)
  then show ?case using assms(3) [unfolded reachable_def] by blast
qed

lemma reachable_init: "reachable fn tasks maxWorkers (init_pool tasks maxWorkers)"
  by (simp add: reachable_def)

lemma reachable_step:
  "reachable fn tasks maxWorkers s \<Longrightarrow> pool_step fn (length tasks) s s' \<Longrightarrow>
   reachable fn tasks maxWorkers s'"
  by (auto simp: reachable_def)

lemma reachable_safe: "reachable (Some f) tasks maxWorkers s \<Longrightarrow> pool_safe s"
  by (induction rule: reachable_induct) (auto intro: init_pool_safe pool_step_safe)

lemma reachable_must_return:
  "tasks \<noteq> [] \<Longrightarrow> reachable (Some f) tasks maxWorkers s \<Longrightarrow>
   must_return (Some f) (length tasks) s"
  by (simp add: safe_must_return reachable_safe)

subsection \<open>collector\<close>

lemma prog_step_slots: "prog_step fn cap s s' \<Longrightarrow> todo s' + length (errs s') = todo s + length (errs s)"
  by (induction rule: prog_step.induct) auto

lemma pool_step_slots: "pool_step fn cap s s' \<Longrightarrow> todo s' + length (errs s') = todo s + length (errs s)"
  by (auto simp: pool_step_def ctx_cancel_def dest: prog_step_slots)

lemma reachable_slots:
  "reachable fn tasks maxWorkers s \<Longrightarrow> todo s + length (errs s) = length tasks"
  by (induction rule: reachable_induct) (auto simp: init_pool_def dest: pool_step_slots)

lemma prog_step_workers: "prog_step fn cap s s' \<Longrightarrow> length (workers s') = length (workers s)"
  by (induction rule: prog_step.induct) auto

lemma pool_step_workers: "pool_step fn cap s s' \<Longrightarrow> length (workers s') = length (workers s)"
  by (auto simp: pool_step_def ctx_cancel_def dest: prog_step_workers)

lemma reachable_workers:
  "reachable fn tasks maxWorkers s \<Longrightarrow> length (workers s) = spawned tasks maxWorkers"
  by (induction rule: reachable_induct) (auto simp: init_pool_def dest: pool_step_workers)

subsection \<open>calls\<close>

definition accounted :: "('t, 'k, 'v, 'e) pool \<Rightarrow> 't multiset" where
  "accounted s = mset (calls s) + mset (tasksChan s) + mset (pending s)"

lemma prog_step_accounted: "prog_step fn cap s s' \<Longrightarrow> accounted s' \<subseteq># accounted s"
  by (induction rule: prog_step.induct) (auto simp: accounted_def)

lemma pool_step_accounted: "pool_step fn cap s s' \<Longrightarrow> accounted s' \<subseteq># accounted s"
  by (auto simp: pool_step_def ctx_cancel_def accounted_def dest: prog_step_accounted)

lemma reachable_accounted:
  "reachable fn tasks maxWorkers s \<Longrightarrow> accounted s \<subseteq># mset tasks"
proof (induction rule: reachable_induct)
  case init
  show ?case by (simp add: accounted_def init_pool_def)
next
  case (step s s')
  then show ?case using pool_step_accounted subset_mset.order_trans by blast
qed

lemma reachable_calls:
  assumes "reachable fn tasks maxWorkers s"
  shows "mset (calls s) \<subseteq># mset tasks"
proof -
  have "mset (calls s) \<subseteq># accounted s" by (simp add: accounted_def)
  with reachable_accounted [OF assms] show ?thesis
    using subset_mset.order_trans by blast
qed

lemma mset_subseteq_distinct:
  assumes "mset xs \<subseteq># mset ys" and "distinct ys"
  shows "distinct xs"
proof -
  have "count (mset xs) x \<le> 1" for x
    using assms mset_subset_eq_count [of "mset xs" "mset ys" x]
    by (metis distinct_count_atmost_1 le_trans order_refl zero_le_one)
  then show ?thesis
    using distinct_count_atmost_1 by (metis count_mset_0_iff le_antisym le_zero_eq not_one_le_zero linorder_not_le less_one nat_less_le)
qed

fun replay ::
  "('t, 'k, 'v, 'e) taskfn \<Rightarrow> ('k \<rightharpoonup> 'v) \<Rightarrow> (bool \<times> 't) list \<Rightarrow> 'e option list \<times> ('k \<rightharpoonup> 'v)"
where
  "replay f st [] = ([], st)"
| "replay f st ((c, t) # h) =
     (case f c t st of (e, st') \<Rightarrow> (case replay f st' h of (es, st'') \<Rightarrow> (e # es, st'')))"

lemma replay_snoc:
  "replay f st (h @ [(c, t)]) =
     (case replay f st h of (es, st') \<Rightarrow> (case f c t st' of (e, st'') \<Rightarrow> (es @ [e], st'')))"
  by (induction f st h rule: replay.induct) (auto split: prod.splits)

lemma length_replay: "length (fst (replay f st h)) = length h"
  by (induction f st h rule: replay.induct) (auto split: prod.splits)

definition running :: "('t, 'k, 'v) worker \<Rightarrow> 't list" where
  "running w = (case pc w of Running t \<Rightarrow> [t] | _ \<Rightarrow> [])"

definition started_by :: "('t, 'k, 'v) worker \<Rightarrow> 't list" where
  "started_by w = map snd (hist w) @ running w"

definition outcomes_of :: "('t, 'k, 'v, 'e) taskfn \<Rightarrow> ('t, 'k, 'v) worker \<Rightarrow> 'e option list" where
  "outcomes_of f w = fst (replay f Map.empty (hist w))"

definition store_kept :: "('t, 'k, 'v, 'e) taskfn \<Rightarrow> ('t, 'k, 'v) worker \<Rightarrow> bool" where
  "store_kept f w = (store w = snd (replay f Map.empty (hist w)))"

lemma prog_step_store_kept:
  "prog_step (Some f) cap s s' \<Longrightarrow> list_all (store_kept f) (workers s) \<Longrightarrow>
   list_all (store_kept f) (workers s')"
proof (induction rule: prog_step.induct)
  case (work_cancel s i)
  then show ?case
    by (auto intro!: list_all_update dest: list_all_nthD simp: store_kept_def)
next
  case (work_closed s i)
  then show ?case
    by (auto intro!: list_all_update dest: list_all_nthD simp: store_kept_def)
next
  case (work_recv s i t ts g)
  then show ?case
    by (auto intro!: list_all_update dest: list_all_nthD simp: store_kept_def)
next
  case (work_send s i t g e st)
  from work_send have "store_kept f (workers s ! i)" by (auto dest: list_all_nthD)
  with work_send show ?case
    by (auto intro!: list_all_update simp: store_kept_def replay_snoc split: prod.splits)
qed auto

lemma reachable_store_kept:
  "reachable (Some f) tasks maxWorkers s \<Longrightarrow> list_all (store_kept f) (workers s)"
proof (induction rule: reachable_induct)
  case init
  show ?case by (simp add: init_pool_def list_all_length store_kept_def newWorker_def)
next
  case (step s s')
  then show ?case
    by (auto simp: pool_step_def ctx_cancel_def dest: prog_step_store_kept)
qed

definition started :: "('t, 'k, 'v, 'e) pool \<Rightarrow> 't multiset" where
  "started s = sum_list (map (\<lambda>w. mset (started_by w)) (workers s))"

lemma prog_step_started:
  "prog_step fn cap s s' \<Longrightarrow> started s = mset (calls s) \<Longrightarrow> started s' = mset (calls s')"
proof (induction rule: prog_step.induct)
  case (work_cancel s i)
  then show ?case
    using sum_list_map_update [of i "workers s" "\<lambda>w. mset (started_by w)" "(workers s ! i)\<lparr>pc := Exited\<rparr>"]
    by (simp add: started_def started_by_def running_def)
next
  case (work_closed s i)
  then show ?case
    using sum_list_map_update [of i "workers s" "\<lambda>w. mset (started_by w)" "(workers s ! i)\<lparr>pc := Exited\<rparr>"]
    by (simp add: started_def started_by_def running_def)
next
  case (work_recv s i t ts f)
  then show ?case
    using sum_list_map_update [of i "workers s" "\<lambda>w. mset (started_by w)" "(workers s ! i)\<lparr>pc := Running t\<rparr>"]
    by (simp add: started_def started_by_def running_def)
next
  case (work_send s i t f e st)
  then show ?case
    using sum_list_map_update [of i "workers s" "\<lambda>w. mset (started_by w)"
        "\<lparr>pc = Idle, store = st, hist = hist (workers s ! i) @ [(cancelled s, t)]\<rparr>"]
    by (simp add: started_def started_by_def running_def)
qed (auto simp: started_def)

lemma sum_list_replicate_empty: "sum_list (replicate n ({#} :: 'a multiset)) = {#}"
  by (induction n) auto

lemma reachable_started:
  "reachable fn tasks maxWorkers s \<Longrightarrow> started s = mset (calls s)"
proof (induction rule: reachable_induct)
  case init
  show ?case
    by (simp add: init_pool_def started_def started_by_def running_def newWorker_def
         sum_list_replicate_empty)
next
  case (step s s')
  then show ?case
    by (auto simp: pool_step_def ctx_cancel_def started_def dest: prog_step_started)
qed

subsection \<open>no workers\<close>

definition idle_pool :: "nat \<Rightarrow> ('t, 'k, 'v, 'e) pool \<Rightarrow> bool" where
  "idle_pool n s = (workers s = [] \<and> calls s = [] \<and> errorsChan s = [] \<and>
     errs s = replicate (n - todo s) None \<and> todo s \<le> n)"

lemma prog_step_idle_pool: "prog_step fn cap s s' \<Longrightarrow> idle_pool n s \<Longrightarrow> idle_pool n s'"
proof (induction rule: prog_step.induct)
  case (coll_zero s)
  then have "Suc (n - todo s) = n - (todo s - 1)" by (auto simp: idle_pool_def)
  with coll_zero show ?case
    by (auto simp: idle_pool_def replicate_append_same simp flip: replicate_Suc)
qed (auto simp: idle_pool_def)

lemma reachable_idle_pool:
  assumes "maxWorkers \<le> 0"
  shows "reachable fn tasks maxWorkers s \<Longrightarrow> idle_pool (length tasks) s"
proof (induction rule: reachable_induct)
  case init
  from assms show ?case
    by (simp add: idle_pool_def init_pool_def spawned_def poolWorkers_def Clamp_def)
next
  case (step s s')
  then show ?case
    by (auto simp: pool_step_def ctx_cancel_def dest: prog_step_idle_pool) (simp add: idle_pool_def)
qed

subsection \<open>runs\<close>

lemma must_return_run:
  "must_return fn cap s \<Longrightarrow> \<exists>s'. (prog_step fn cap)\<^sup>*\<^sup>* s s' \<and> returned s'"
proof (induction rule: must_return.induct)
  case (now s)
  then show ?case by blast
next
  case (later s s0)
  have "pool_step fn cap s s0" using later.hyps(1) by (simp add: pool_step_def)
  then obtain s' where "(prog_step fn cap)\<^sup>*\<^sup>* s0 s'" "returned s'"
    using later.IH by blast
  with later.hyps(1) show ?case
    by (meson converse_rtranclp_into_rtranclp)
qed

lemma prog_step_cancelled: "prog_step fn cap s s' \<Longrightarrow> cancelled s' = cancelled s"
  by (induction rule: prog_step.induct) auto

lemma prog_steps_cancelled: "(prog_step fn cap)\<^sup>*\<^sup>* s s' \<Longrightarrow> cancelled s' = cancelled s"
  by (induction rule: rtranclp_induct) (auto dest: prog_step_cancelled)

lemma prog_steps_pool_steps: "(prog_step fn cap)\<^sup>*\<^sup>* s s' \<Longrightarrow> (pool_step fn cap)\<^sup>*\<^sup>* s s'"
  by (induction rule: rtranclp_induct) (auto simp: pool_step_def intro: rtranclp.rtrancl_into_rtrancl)

lemma quiet_run:
  assumes "tasks \<noteq> []"
  shows "\<exists>s. reachable (Some f) tasks maxWorkers s \<and> returned s \<and> \<not> cancelled s"
proof -
  have "must_return (Some f) (length tasks) (init_pool tasks maxWorkers)"
    using reachable_must_return [OF assms reachable_init] .
  then obtain s where s: "(prog_step (Some f) (length tasks))\<^sup>*\<^sup>* (init_pool tasks maxWorkers) s"
    and r: "returned s"
    using must_return_run by blast
  from s have "cancelled s = cancelled (init_pool tasks maxWorkers :: ('a, 'b, 'c, 'd) pool)"
    by (rule prog_steps_cancelled)
  then have "\<not> cancelled s" by (simp add: init_pool_def)
  with s r show ?thesis
    by (auto simp: reachable_def dest: prog_steps_pool_steps)
qed

subsection \<open>runs without cancellation\<close>

lemma replay_snoc_fst:
  "fst (replay f st (h @ [(c, t)])) = fst (replay f st h) @ [fst (f c t (snd (replay f st h)))]"
  by (simp add: replay_snoc split: prod.splits)

lemma replay_snoc_snd:
  "snd (replay f st (h @ [(c, t)])) = snd (f c t (snd (replay f st h)))"
  by (simp add: replay_snoc split: prod.splits)

lemma replay_Cons_fst:
  "fst (replay f st ((c, t) # h)) = fst (f c t st) # fst (replay f (snd (f c t st)) h)"
  by (simp split: prod.splits)

definition produced :: "('t, 'k, 'v, 'e) taskfn \<Rightarrow> ('t, 'k, 'v, 'e) pool \<Rightarrow> 'e option multiset" where
  "produced f s = sum_list (map (\<lambda>w. mset (outcomes_of f w)) (workers s))"

definition finished :: "('t, 'k, 'v, 'e) pool \<Rightarrow> 't multiset" where
  "finished s = sum_list (map (\<lambda>w. mset (map snd (hist w))) (workers s))"

definition quiet_inv :: "'t list \<Rightarrow> ('t, 'k, 'v, 'e) taskfn \<Rightarrow> ('t, 'k, 'v, 'e) pool \<Rightarrow> bool" where
  "quiet_inv tasks f s =
     (accounted s = mset tasks \<and> (tasksClosed s \<longrightarrow> pending s = []) \<and>
      (list_ex (\<lambda>w. pc w = Exited) (workers s) \<longrightarrow> tasksChan s = [] \<and> tasksClosed s) \<and>
      (workers s \<noteq> [] \<longrightarrow> mset (errs s) + mset (errorsChan s) = produced f s))"

lemma size_sum_list_mset:
  "size (sum_list (map (\<lambda>w. mset (g w)) ws)) = sum_list (map (\<lambda>w. length (g w)) ws)"
  by (induction ws) auto

lemma size_produced: "size (produced f s) = size (finished s)"
  by (simp only: produced_def finished_def size_sum_list_mset)
     (simp add: outcomes_of_def length_replay)

lemma sum_list_mset_mono:
  "(\<And>w. w \<in> set ws \<Longrightarrow> g w \<subseteq># h w) \<Longrightarrow>
   sum_list (map g ws) \<subseteq># (sum_list (map h ws) :: 'a multiset)"
  by (induction ws) (auto intro: subset_mset.add_mono)

lemma finished_subset_started: "finished s \<subseteq># started s"
  unfolding finished_def started_def
  by (rule sum_list_mset_mono) (simp add: started_by_def)

lemma all_exited_started:
  assumes "list_all (\<lambda>w. pc w = Exited) (workers s)"
  shows "started s = finished s"
  unfolding started_def finished_def
  by (rule arg_cong [where f = sum_list])
     (use assms in \<open>auto simp: list_all_iff started_by_def running_def\<close>)

lemma list_ex_update_other:
  assumes "list_ex P (xs[i := x])" and "\<not> P x"
  shows "list_ex P xs"
proof -
  from assms obtain y where "y \<in> set (xs[i := x])" "P y" by (auto simp: list_ex_iff)
  with assms(2) have "y \<in> set xs" using set_update_subset_insert [of xs i x] by auto
  with \<open>P y\<close> show ?thesis by (auto simp: list_ex_iff)
qed

lemma list_all_ex: "list_all P xs \<Longrightarrow> xs \<noteq> [] \<Longrightarrow> list_ex P xs"
  by (cases xs) auto

lemma produced_update:
  assumes "i < length (workers s)" and "outcomes_of f w = outcomes_of f (workers s ! i) @ es"
  shows "sum_list (map (\<lambda>w. mset (outcomes_of f w)) ((workers s)[i := w])) = produced f s + mset es"
  using sum_list_map_update [of i "workers s" "\<lambda>w. mset (outcomes_of f w)" w] assms
  by (simp add: produced_def)

lemma quiet_zero_impossible:
  assumes inv: "quiet_inv tasks f s" and safe: "pool_safe s"
    and slots: "todo s + length (errs s) = length tasks"
    and st: "started s = mset (calls s)"
    and ws: "workers s \<noteq> []" and cl: "errorsClosed s" and emp: "errorsChan s = []"
  shows "todo s = 0"
proof -
  from safe cl have ex: "list_all (\<lambda>w. pc w = Exited) (workers s)" by (simp add: pool_safe_def)
  have "list_ex (\<lambda>w. pc w = Exited) (workers s)" by (rule list_all_ex [OF ex ws])
  with inv have "tasksChan s = []" "pending s = []" by (auto simp: quiet_inv_def)
  with inv have "mset (calls s) = mset tasks" by (simp add: quiet_inv_def accounted_def)
  with st all_exited_started [OF ex] have "size (finished s) = length tasks"
    by (metis size_mset)
  moreover from inv ws emp have "mset (errs s) = produced f s" by (simp add: quiet_inv_def)
  ultimately have "length (errs s) = length tasks"
    using size_produced [of f s] by (metis size_mset)
  with slots show ?thesis by simp
qed

lemma prog_step_quiet:
  assumes "prog_step (Some f) cap s s'" and "quiet_inv tasks f s" and "\<not> cancelled s"
    and "pool_safe s" and "todo s + length (errs s) = length tasks"
    and "started s = mset (calls s)" and "list_all (store_kept f) (workers s)"
  shows "quiet_inv tasks f s'"
  using assms
proof (induction rule: prog_step.induct)
  case (disp_send s t ts)
  then show ?case by (auto simp: quiet_inv_def accounted_def produced_def)
next
  case (disp_cancel s)
  then show ?case by simp
next
  case (disp_close s)
  then show ?case by (auto simp: quiet_inv_def accounted_def produced_def)
next
  case (work_cancel s i)
  then show ?case by simp
next
  case (work_closed s i)
  have "outcomes_of f ((workers s ! i)\<lparr>pc := Exited\<rparr>) = outcomes_of f (workers s ! i) @ []"
    by (simp add: outcomes_of_def)
  from produced_update [OF work_closed(2) this] work_closed
  show ?case by (auto simp: quiet_inv_def accounted_def produced_def)
next
  case (work_recv s i t ts g)
  have "outcomes_of f ((workers s ! i)\<lparr>pc := Running t\<rparr>) = outcomes_of f (workers s ! i) @ []"
    by (simp add: outcomes_of_def)
  from produced_update [OF work_recv(2) this]
  have p: "produced f (s\<lparr>tasksChan := ts, workers := (workers s)[i := (workers s ! i)\<lparr>pc := Running t\<rparr>],
          calls := calls s @ [t]\<rparr>) = produced f s"
    by (simp add: produced_def)
  have "\<not> list_ex (\<lambda>w. pc w = Exited) ((workers s)[i := (workers s ! i)\<lparr>pc := Running t\<rparr>])"
  proof
    assume "list_ex (\<lambda>w. pc w = Exited) ((workers s)[i := (workers s ! i)\<lparr>pc := Running t\<rparr>])"
    then have "list_ex (\<lambda>w. pc w = Exited) (workers s)"
      by (rule list_ex_update_other) simp
    with work_recv show False by (simp add: quiet_inv_def)
  qed
  with work_recv p show ?case
    by (simp add: quiet_inv_def accounted_def produced_def)
next
  case (work_nil s i t ts)
  then show ?case by simp
next
  case (work_send s i t g e st)
  from work_send have g: "g = f" by simp
  from work_send have kept: "store (workers s ! i) = snd (replay f Map.empty (hist (workers s ! i)))"
    by (auto dest: list_all_nthD simp: store_kept_def)
  have "outcomes_of f \<lparr>pc = Idle, store = st, hist = hist (workers s ! i) @ [(cancelled s, t)]\<rparr>
        = outcomes_of f (workers s ! i) @ [e]"
    using work_send(5) kept g
    by (simp add: outcomes_of_def replay_snoc_fst)
  from produced_update [OF work_send(2) this]
  have p: "produced f (s\<lparr>workers := (workers s)[i := \<lparr>pc = Idle, store = st,
              hist = hist (workers s ! i) @ [(cancelled s, t)]\<rparr>],
            errorsChan := errorsChan s @ [e]\<rparr>) = produced f s + {#e#}"
    by (simp add: produced_def)
  have ex: "list_ex (\<lambda>w. pc w = Exited) (workers s)"
    if "list_ex (\<lambda>w. pc w = Exited) ((workers s)[i := \<lparr>pc = Idle, store = st,
              hist = hist (workers s ! i) @ [(cancelled s, t)]\<rparr>])"
    using that by (rule list_ex_update_other) simp
  from work_send p ex show ?case
    by (auto simp: quiet_inv_def accounted_def)
next
  case (work_send_closed s i t)
  then show ?case by (auto simp: quiet_inv_def accounted_def produced_def)
next
  case (wait_close s)
  then show ?case by (auto simp: quiet_inv_def accounted_def produced_def)
next
  case (coll_recv s e es)
  then show ?case by (auto simp: quiet_inv_def accounted_def produced_def)
next
  case (coll_zero s)
  show ?case
  proof (cases "workers s = []")
    case True
    with coll_zero show ?thesis by (auto simp: quiet_inv_def accounted_def)
  next
    case False
    with coll_zero have "todo s = 0" by (intro quiet_zero_impossible [of tasks f s]) simp_all
    with coll_zero show ?thesis by simp
  qed
qed

lemma pool_step_cancelled_mono: "pool_step fn cap s s' \<Longrightarrow> cancelled s \<Longrightarrow> cancelled s'"
  by (auto simp: pool_step_def ctx_cancel_def dest: prog_step_cancelled)

lemma reachable_quiet:
  "reachable (Some f) tasks maxWorkers s \<Longrightarrow> \<not> cancelled s \<Longrightarrow> quiet_inv tasks f s"
proof (induction rule: reachable_induct)
  case init
  show ?case
    by (simp add: quiet_inv_def init_pool_def accounted_def produced_def outcomes_of_def
        newWorker_def list_ex_iff sum_list_replicate_empty)
next
  case (step s s')
  from step.hyps(2) step.prems have nc: "\<not> cancelled s"
    using pool_step_cancelled_mono by blast
  with step.prems step.hyps(2) have ps: "prog_step (Some f) (length tasks) s s'"
    by (auto simp: pool_step_def ctx_cancel_def)
  show ?case
    using ps step.IH [OF nc] nc reachable_safe [OF step.hyps(1)] reachable_slots [OF step.hyps(1)]
      reachable_started [OF step.hyps(1)] reachable_store_kept [OF step.hyps(1)]
    by (rule prog_step_quiet)
qed

lemma quiet_return:
  assumes r: "reachable (Some f) tasks maxWorkers s" and nc: "\<not> cancelled s"
    and ret: "returned s" and ws: "workers s \<noteq> []"
  shows "mset (errs s) = produced f s \<and> finished s = mset tasks \<and>
         mset (calls s) = mset tasks \<and> errorsChan s = []"
proof -
  from reachable_quiet [OF r nc] ws
  have eq: "mset (errs s) + mset (errorsChan s) = produced f s" by (simp add: quiet_inv_def)
  from reachable_slots [OF r] ret have le: "length (errs s) = length tasks"
    by (simp add: returned_def)
  have "size (mset (errs s) + mset (errorsChan s)) = size (finished s)"
    using eq size_produced [of f s] by simp
  then have sz: "length tasks + length (errorsChan s) = size (finished s)" using le by simp
  have fs: "size (finished s) \<le> size (started s)"
    by (rule size_mset_mono [OF finished_subset_started])
  have sc: "size (started s) = length (calls s)"
    using reachable_started [OF r] by (metis size_mset)
  have cl: "length (calls s) \<le> length tasks"
    using size_mset_mono [OF reachable_calls [OF r]] by simp
  from sz fs sc cl have "length (errorsChan s) = 0" by linarith
  then have e: "errorsChan s = []" by simp
  from sz fs sc cl have f1: "size (finished s) = size (started s)"
    and c1: "size (mset (calls s)) = size (mset tasks)" by simp_all
  have "finished s = started s"
    using finished_subset_started f1 by (metis mset_subset_size subset_mset.less_le less_irrefl)
  moreover have "mset (calls s) = mset tasks"
    using reachable_calls [OF r] c1 by (metis mset_subset_size subset_mset.less_le less_irrefl)
  ultimately show ?thesis using eq e reachable_started [OF r] by simp
qed

lemma replay_fst_indep:
  assumes "\<And>c t st. fst (f c t st) = g t"
  shows "fst (replay f st h) = map (\<lambda>x. g (snd x)) h"
proof (induction h arbitrary: st)
  case Nil
  show ?case by simp
next
  case (Cons x h)
  obtain c t where x: "x = (c, t)" by (cases x)
  show ?case
    unfolding x replay_Cons_fst by (simp add: assms Cons)
qed

lemma produced_indep:
  assumes "\<And>c t st. fst (f c t st) = g t"
  shows "produced f s = image_mset g (finished s)"
proof -
  have "sum_list (map (\<lambda>w. mset (outcomes_of f w)) ws)
      = image_mset g (sum_list (map (\<lambda>w. mset (map snd (hist w))) ws))" for ws
    by (induction ws)
       (simp_all add: outcomes_of_def replay_fst_indep [of f g, OF assms] multiset.map_comp comp_def)
  then show ?thesis by (simp add: produced_def finished_def)
qed

subsection \<open>one worker, no cancellation\<close>

definition in_order :: "('t, 'k, 'v, 'e) taskfn \<Rightarrow> 't list \<Rightarrow> 'e option list" where
  "in_order f tasks = fst (replay f Map.empty (map (Pair False) tasks))"

definition seq_inv :: "'t list \<Rightarrow> ('t, 'k, 'v, 'e) taskfn \<Rightarrow> ('t, 'k, 'v, 'e) pool \<Rightarrow> bool" where
  "seq_inv tasks f s =
     (tasks = started_by (hd (workers s)) @ tasksChan s @ pending s \<and>
      list_all (\<lambda>x. \<not> fst x) (hist (hd (workers s))) \<and>
      errs s @ errorsChan s = outcomes_of f (hd (workers s)))"

lemma replay_append_fst:
  "fst (replay f st (h1 @ h2)) = fst (replay f st h1) @ fst (replay f (snd (replay f st h1)) h2)"
  by (induction f st h1 rule: replay.induct) (auto split: prod.splits)

lemma prog_step_seq:
  assumes "prog_step (Some f) cap s s'" and "workers s = [w]" and "seq_inv tasks f s"
    and "\<not> cancelled s" and "quiet_inv tasks f s"
    and "pool_safe s" and "todo s + length (errs s) = length tasks"
    and "started s = mset (calls s)" and "store_kept f w"
  shows "seq_inv tasks f s'"
  using assms
proof (induction rule: prog_step.induct)
  case (disp_send s t ts)
  then show ?case by (simp add: seq_inv_def)
next
  case (work_closed s i)
  then show ?case by (simp add: seq_inv_def started_by_def running_def outcomes_of_def)
next
  case (work_recv s i t ts g)
  then show ?case by (simp add: seq_inv_def started_by_def running_def outcomes_of_def)
next
  case (work_send s i t g e st)
  then have "i = 0" and "g = f" by simp_all
  with work_send show ?case
    by (simp add: seq_inv_def started_by_def running_def outcomes_of_def replay_snoc_fst
        store_kept_def)
next
  case (coll_recv s e es)
  then show ?case by (simp add: seq_inv_def)
next
  case (coll_zero s)
  then have "todo s = 0" by (intro quiet_zero_impossible [of tasks f s]) simp_all
  with coll_zero show ?case by simp
qed (simp_all add: seq_inv_def)

lemma reachable_seq:
  assumes one: "spawned tasks maxWorkers = 1"
  shows "reachable (Some f) tasks maxWorkers s \<Longrightarrow> \<not> cancelled s \<Longrightarrow> seq_inv tasks f s"
proof (induction rule: reachable_induct)
  case init
  from one show ?case
    by (simp add: seq_inv_def init_pool_def started_by_def running_def outcomes_of_def newWorker_def)
next
  case (step s s')
  from step.hyps(2) step.prems have nc: "\<not> cancelled s"
    using pool_step_cancelled_mono by blast
  with step.prems step.hyps(2) have ps: "prog_step (Some f) (length tasks) s s'"
    by (auto simp: pool_step_def ctx_cancel_def)
  from reachable_workers [OF step.hyps(1)] one obtain w where w: "workers s = [w]"
    by (cases "workers s") auto
  with reachable_store_kept [OF step.hyps(1)] have k: "store_kept f w" by simp
  show ?case
    using ps w step.IH [OF nc] nc reachable_quiet [OF step.hyps(1) nc]
      reachable_safe [OF step.hyps(1)] reachable_slots [OF step.hyps(1)]
      reachable_started [OF step.hyps(1)] k
    by (rule prog_step_seq)
qed

lemma not_fst_all: "list_all (\<lambda>x. \<not> fst x) h \<Longrightarrow> h = map (Pair False) (map snd h)"
  by (induction h) auto

lemma seq_return:
  assumes one: "spawned tasks maxWorkers = 1"
    and r: "reachable (Some f) tasks maxWorkers s" and nc: "\<not> cancelled s" and ret: "returned s"
  shows "errs s = in_order f tasks"
proof -
  from reachable_workers [OF r] one obtain w where w: "workers s = [w]"
    by (cases "workers s") auto
  then have ws: "workers s \<noteq> []" by simp
  note q = quiet_return [OF r nc ret ws]
  note i = reachable_seq [OF one r nc, unfolded seq_inv_def]
  from q w have fin: "mset (map snd (hist w)) = mset tasks" by (simp add: finished_def)
  then have "length (map snd (hist w)) = length tasks" by (rule mset_eq_length)
  moreover from i w have t: "tasks = map snd (hist w) @ running w @ tasksChan s @ pending s"
    by (simp add: started_by_def)
  ultimately have "length (running w @ tasksChan s @ pending s) = 0"
    by (metis add_cancel_right_right length_append)
  with t have "tasks = map snd (hist w)" by simp
  moreover from i w have "hist w = map (Pair False) (map snd (hist w))"
    by (intro not_fst_all) simp
  ultimately have h: "hist w = map (Pair False) tasks" by simp
  from i w q have "errs s = outcomes_of f w" by simp
  with h show ?thesis by (simp add: in_order_def outcomes_of_def)
qed

lemma in_order_nth:
  assumes "i < length tasks"
  shows "in_order f tasks ! i =
         fst (f False (tasks ! i) (snd (replay f Map.empty (map (Pair False) (take i tasks)))))"
proof -
  have "tasks = take i tasks @ tasks ! i # drop (Suc i) tasks"
    using assms by (rule id_take_nth_drop)
  then have "in_order f tasks = fst (replay f Map.empty
      (map (Pair False) (take i tasks) @ (False, tasks ! i) # map (Pair False) (drop (Suc i) tasks)))"
    unfolding in_order_def by (metis list.simps(9) map_append)
  also have "\<dots> ! i = fst (f False (tasks ! i) (snd (replay f Map.empty (map (Pair False) (take i tasks)))))"
    using assms
    by (simp add: replay_append_fst nth_append length_replay split: prod.splits)
  finally show ?thesis .
qed

subsection \<open>a counter in the store\<close>

text \<open>A task function that adds 1 to the value under the key \<open>k\<close> (0 when the key is missing).\<close>

definition counts_calls :: "'k \<Rightarrow> ('t, 'k, int, 'e) taskfn \<Rightarrow> bool" where
  "counts_calls k f = (\<forall>c t st. snd (f c t st) k = Some ((case st k of None \<Rightarrow> 0 | Some v \<Rightarrow> v) + 1))"

lemma counter_replay:
  assumes "counts_calls k f"
  shows "snd (replay f Map.empty h) k = (if h = [] then None else Some (int (length h)))"
proof (induction h rule: rev_induct)
  case Nil
  show ?case by simp
next
  case (snoc x h)
  obtain c t where x: "x = (c, t)" by (cases x)
  from assms have "snd (f c t st) k = Some ((case st k of None \<Rightarrow> 0 | Some v \<Rightarrow> v) + 1)" for st
    by (simp add: counts_calls_def)
  with snoc show ?case unfolding x replay_snoc_snd by simp
qed

lemma single_worker_calls:
  assumes "reachable fn tasks maxWorkers s" and "workers s = [w]"
  shows "length (hist w) + length (running w) = length (calls s)"
proof -
  from reachable_started [OF assms(1)] assms(2) have "mset (started_by w) = mset (calls s)"
    by (simp add: started_def)
  then have "length (started_by w) = length (calls s)" by (rule mset_eq_length)
  then show ?thesis by (simp add: started_by_def)
qed

subsection \<open>a cancelled run\<close>

text \<open>
  The call on the tasks 1 and 2 with one worker, after the dispatcher has sent task 1 and the
  caller has then cancelled the context: the worker is at its \<^verbatim>\<open>select\<close> with both cases
  ready.
\<close>

definition cancelled_queued :: "(int, string, int, test_error) pool" where
  "cancelled_queued =
     \<lparr>cancelled = True, pending = [2], tasksChan = [1], tasksClosed = False,
      workers = [newWorker], errorsChan = [], errorsClosed = False,
      todo = 2, errs = [], panicked = False, calls = []\<rparr>"

lemma cancelled_queued_reachable: "reachable fn [1, 2] 1 cancelled_queued"
proof -
  let ?s0 = "init_pool [1, 2] 1 :: (int, string, int, test_error) pool"
  let ?s1 = "?s0\<lparr>pending := [2], tasksChan := tasksChan ?s0 @ [1]\<rparr>"
  have "prog_step fn (length [1 :: int, 2]) ?s0 ?s1"
    by (rule prog_step.disp_send) (simp_all add: init_pool_def)
  then have "pool_step fn (length [1 :: int, 2]) ?s0 ?s1" by (simp add: pool_step_def)
  with reachable_init have r1: "reachable fn [1, 2] 1 ?s1" by (rule reachable_step)
  have "ctx_cancel ?s1 (?s1\<lparr>cancelled := True\<rparr>)" by (simp add: ctx_cancel_def init_pool_def)
  then have "pool_step fn (length [1 :: int, 2]) ?s1 (?s1\<lparr>cancelled := True\<rparr>)"
    by (simp add: pool_step_def)
  with r1 have "reachable fn [1, 2] 1 (?s1\<lparr>cancelled := True\<rparr>)" by (rule reachable_step)
  moreover have "?s1\<lparr>cancelled := True\<rparr> = cancelled_queued"
    by (simp add: cancelled_queued_def init_pool_def spawned_def poolWorkers_def Clamp_def)
  ultimately show ?thesis by simp
qed

lemma cancelled_queued_recv:
  "prog_step (Some f) 2 cancelled_queued
     (cancelled_queued\<lparr>tasksChan := [],
        workers := (workers cancelled_queued)[0 := (workers cancelled_queued ! 0)\<lparr>pc := Running 1\<rparr>],
        calls := calls cancelled_queued @ [1]\<rparr>)"
  by (rule prog_step.work_recv [where f = f]) (simp_all add: cancelled_queued_def newWorker_def)

lemma nth_started:
  assumes "j < length (workers s)"
  shows "mset (started_by (workers s ! j)) \<subseteq># started s"
proof -
  have "j < length ws \<Longrightarrow> mset (started_by (ws ! j)) \<subseteq># sum_list (map (\<lambda>w. mset (started_by w)) ws)"
    for ws :: "('a, 'b, 'c) worker list"
  proof (induction ws arbitrary: j)
    case Nil
    then show ?case by simp
  next
    case (Cons w ws)
    show ?case
    proof (cases j)
      case 0
      then show ?thesis by simp
    next
      case (Suc n)
      with Cons.prems have "n < length ws" by simp
      from Cons.IH [OF this] Suc show ?thesis
        by (simp add: subset_mset.add_increasing)
    qed
  qed
  with assms show ?thesis by (simp add: started_def)
qed

lemma running_called:
  assumes "reachable fn tasks maxWorkers s" and "j < length (workers s)"
    and "pc (workers s ! j) = Running t"
  shows "t \<in> set (calls s)"
proof -
  from assms(3) have "t \<in># mset (started_by (workers s ! j))"
    by (simp add: started_by_def running_def)
  with nth_started [OF assms(2)] have "t \<in># started s" by (meson mset_subset_eqD)
  with reachable_started [OF assms(1)] show ?thesis by simp
qed

lemma prog_step_exited:
  "prog_step fn cap s s' \<Longrightarrow> i < length (workers s) \<Longrightarrow> pc (workers s ! i) = Exited \<Longrightarrow>
   workers s' ! i = workers s ! i"
  by (induction rule: prog_step.induct) (auto simp: nth_list_update)

lemma prog_step_writer:
  assumes "prog_step (Some f) cap s s'" and "length (errorsChan s) < length (errorsChan s')"
  shows "\<exists>j t. j < length (workers s) \<and> pc (workers s ! j) = Running t \<and>
           errorsChan s' = errorsChan s @ [fst (f (cancelled s) t (store (workers s ! j)))]"
  using assms
proof (induction rule: prog_step.induct)
  case (work_send s i t g e st)
  then have "fst (f (cancelled s) t (store (workers s ! i))) = e" by simp
  with work_send show ?case by auto
qed auto

subsection \<open>runs without cancellation of a pool with a worker\<close>

lemma passed_through_with_worker:
  assumes "tasks \<noteq> []" and "1 \<le> maxWorkers"
    and "reachable (Some f) tasks maxWorkers s" and "returned s" and "\<not> cancelled s"
  shows "mset (errs s) = produced f s \<and> mset (calls s) = mset tasks \<and> finished s = mset tasks"
proof -
  from assms(1,2) have "0 < spawned tasks maxWorkers"
    by (cases tasks) (auto simp: spawned_def poolWorkers_def Clamp_def)
  with reachable_workers [OF assms(3)] have ws: "workers s \<noteq> []" by auto
  from quiet_return [OF assms(3) assms(5) assms(4) ws] show ?thesis by simp
qed

lemma error_counting_with_worker:
  assumes "1 \<le> maxWorkers"
    and "reachable (Some fn_ErrorCounting) [1, 2, 3, 4, 5, 6, 7, 8, 9, 10] maxWorkers s"
    and "returned s" and "\<not> cancelled s"
  shows "length (filter (\<lambda>e. e \<noteq> None) (errs s)) = 5 \<and> length (calls s) = 10"
proof -
  have ne: "[1, 2, 3, 4, 5, 6, 7, 8, 9, 10] \<noteq> ([] :: int list)" by simp
  note q = passed_through_with_worker [OF ne assms]
  let ?g = "\<lambda>task :: int. if task mod 2 = 0 then Some (ErrorOn task) else None"
  have "fst (fn_ErrorCounting c task st) = ?g task" for c task st
    by (simp add: fn_ErrorCounting_def)
  then have "produced fn_ErrorCounting s = image_mset ?g (finished s)"
    by (rule produced_indep)
  with q have "mset (errs s) = mset (map ?g [1, 2, 3, 4, 5, 6, 7, 8, 9, 10])"
    by simp
  then have "mset (filter (\<lambda>e. e \<noteq> None) (errs s))
      = mset (filter (\<lambda>e. e \<noteq> None) (map ?g [1, 2, 3, 4, 5, 6, 7, 8, 9, 10]))"
    by (simp only: mset_filter)
  then have "length (filter (\<lambda>e. e \<noteq> None) (errs s))
      = length (filter (\<lambda>e. e \<noteq> None) (map ?g [1, 2, 3, 4, 5, 6, 7, 8, 9, 10]))"
    by (rule mset_eq_length)
  also have "\<dots> = 5" by simp
  finally have five: "length (filter (\<lambda>e. e \<noteq> None) (errs s)) = 5" .
  from q have "length (calls s) = length [1 :: int, 2, 3, 4, 5, 6, 7, 8, 9, 10]"
    using mset_eq_length by blast
  with five show ?thesis by simp
qed

section \<open>The claims\<close>

text \<open>
  C1.  For a non-empty task list and any task function, every run of the call returns,
  whatever the interleaving of the goroutines and whether or whenever the context is
  cancelled, from the start and from every state a run can reach; and every slice the
  call returns has exactly \<open>length tasks\<close> elements.
\<close>

theorem C1_one_outcome_per_task:
  assumes "tasks \<noteq> []"
  shows "must_return (Some f) (length tasks) (init_pool tasks maxWorkers) \<and>
         (\<forall>s. reachable (Some f) tasks maxWorkers s \<longrightarrow>
              must_return (Some f) (length tasks) s \<and> length (errs s) \<le> length tasks) \<and>
         (\<forall>r log. RunWorkerPool (Some f) tasks maxWorkers (r, log) \<longrightarrow>
              (\<exists>es. r = Slice es \<and> length es = length tasks))"
proof (intro conjI allI impI)
  show "must_return (Some f) (length tasks) (init_pool tasks maxWorkers)"
    using reachable_must_return [OF assms reachable_init] .
next
  fix s assume "reachable (Some f) tasks maxWorkers s"
  then show "must_return (Some f) (length tasks) s"
    using assms by (simp add: reachable_must_return)
next
  fix s assume "reachable (Some f) tasks maxWorkers s"
  from reachable_slots [OF this] show "length (errs s) \<le> length tasks" by simp
next
  fix r log assume "RunWorkerPool (Some f) tasks maxWorkers (r, log)"
  then show "\<exists>es. r = Slice es \<and> length es = length tasks"
  proof (cases rule: RunWorkerPool.cases)
    case no_tasks
    with assms show ?thesis by simp
  next
    case (collected s)
    from reachable_slots [OF collected(4)] collected(5)
    have "length (errs s) = length tasks" by (simp add: returned_def)
    with collected show ?thesis by simp
  qed
qed

theorem C1_one_outcome_per_task_witness:
  "must_return (Some fn_Cancellation) 3 (init_pool [1, 2, 3] 2) \<and>
   (\<exists>s. reachable (Some fn_Cancellation) [1, 2, 3] 2 s \<and> returned s \<and>
        RunWorkerPool (Some fn_Cancellation) [1, 2, 3] 2 (Slice (errs s), calls s) \<and>
        length (errs s) = 3)"
proof -
  have ne: "[1, 2, 3] \<noteq> ([] :: int list)" by simp
  have len: "length [1 :: int, 2, 3] = 3" by simp
  note c1 = C1_one_outcome_per_task [OF ne, of fn_Cancellation 2, unfolded len]
  obtain s where s: "reachable (Some fn_Cancellation) [1, 2, 3] 2 s" "returned s"
    using quiet_run [OF ne] by blast
  then have run: "RunWorkerPool (Some fn_Cancellation) [1, 2, 3] 2 (Slice (errs s), calls s)"
    using ne by (rule_tac RunWorkerPool.collected)
  with c1 have "length (errs s) = 3" by blast
  with c1 s run show ?thesis by blast
qed

text \<open>
  C2.  The claim asks for one worker when \<open>maxWorkers \<le> 0\<close>.  For one task and
  \<open>maxWorkers = 0\<close> the context-aware pool computes \<open>Clamp 1 1 0 = 0\<close> and starts no worker,
  where the pool without a context computes 1.
\<close>

theorem C2_nonpositive_not_clamped:
  "poolWorkers [1 :: int] 0 = 0 \<and> spawned [1 :: int] 0 = 0 \<and> legacyWorkers [1 :: int] 0 = 1"
  by (simp add: poolWorkers_def Clamp_def spawned_def legacyWorkers_def)

text \<open>
  C3.  For a non-empty task list and \<open>maxWorkers \<le> 0\<close> the context-aware pool starts no
  worker, \<^verbatim>\<open>fn\<close> is invoked in no state of any run, every run returns, and what the call
  returns is \<open>length tasks\<close> nil errors.
\<close>

theorem C3_no_workers:
  assumes "tasks \<noteq> []" and "maxWorkers \<le> 0"
  shows "workers (init_pool tasks maxWorkers :: ('t, 'k, 'v, 'e) pool) = [] \<and>
         must_return (Some (f :: ('t, 'k, 'v, 'e) taskfn)) (length tasks) (init_pool tasks maxWorkers) \<and>
         (\<forall>s. reachable (Some f) tasks maxWorkers s \<longrightarrow> workers s = [] \<and> calls s = []) \<and>
         (\<forall>r log. RunWorkerPool (Some f) tasks maxWorkers (r, log) \<longrightarrow>
              r = Slice (replicate (length tasks) None) \<and> log = [])"
proof (intro conjI allI impI)
  show "workers (init_pool tasks maxWorkers :: ('t, 'k, 'v, 'e) pool) = []"
    using assms(2) by (simp add: init_pool_def spawned_def poolWorkers_def Clamp_def)
next
  show "must_return (Some f) (length tasks) (init_pool tasks maxWorkers)"
    using reachable_must_return [OF assms(1) reachable_init] .
next
  fix s assume "reachable (Some f) tasks maxWorkers s"
  from reachable_idle_pool [OF assms(2) this]
  show "workers s = []" and "calls s = []" by (simp_all add: idle_pool_def)
next
  fix r log assume run: "RunWorkerPool (Some f) tasks maxWorkers (r, log)"
  then have "r = Slice (replicate (length tasks) None) \<and> log = []"
  proof (cases rule: RunWorkerPool.cases)
    case no_tasks
    with assms show ?thesis by simp
  next
    case (collected s)
    from reachable_idle_pool [OF assms(2) collected(4)] collected
    show ?thesis by (simp add: idle_pool_def returned_def)
  qed
  then show "r = Slice (replicate (length tasks) None)" and "log = []" by simp_all
qed

theorem C3_no_workers_witness:
  "workers (init_pool [1, 2] (- 1) :: (int, string, int, test_error) pool) = [] \<and>
   must_return (Some fn_ErrorCounting) 2 (init_pool [1, 2] (- 1)) \<and>
   (\<exists>s. reachable (Some fn_ErrorCounting) [1, 2] (- 1) s \<and> returned s \<and>
        errs s = [None, None] \<and> calls s = [])"
proof -
  have ne: "[1, 2] \<noteq> ([] :: int list)" and le: "(- 1 :: int) \<le> 0" by simp_all
  have len: "length [1 :: int, 2] = 2" by simp
  have rep: "replicate 2 None = [None :: test_error option, None]"
    by (simp add: numeral_2_eq_2)
  note c3 = C3_no_workers [OF ne le, of fn_ErrorCounting, unfolded len rep]
  obtain s where s: "reachable (Some fn_ErrorCounting) [1, 2] (- 1) s" "returned s"
    using quiet_run [OF ne] by blast
  then have "RunWorkerPool (Some fn_ErrorCounting) [1, 2] (- 1) (Slice (errs s), calls s)"
    using ne by (rule_tac RunWorkerPool.collected)
  with c3 have "errs s = [None, None] \<and> calls s = []" by blast
  with c3 s show ?thesis by blast
qed

text \<open>
  C4.  For no tasks the call returns the empty slice, which is not nil, and has invoked
  \<^verbatim>\<open>fn\<close> on nothing, for every \<open>maxWorkers\<close> and every \<^verbatim>\<open>fn\<close>, the nil function included;
  it returns nothing else.  (A nil and an empty \<^verbatim>\<open>tasks\<close> both have length 0.)
\<close>

theorem C4_no_tasks:
  "RunWorkerPool fn [] maxWorkers (Slice [], []) \<and>
   (\<forall>r. RunWorkerPool fn [] maxWorkers r \<longrightarrow> r = (Slice [], []) \<and> fst r \<noteq> NilSlice)"
  by (auto elim: RunWorkerPool.cases intro: RunWorkerPool.no_tasks)

theorem C4_no_tasks_witness:
  "RunWorkerPool (None :: (int, string, int, test_error) taskfn option) [] 10 (Slice [], []) \<and>
   fst (Slice ([] :: test_error option list), [] :: int list) \<noteq> NilSlice"
  using C4_no_tasks [of "None :: (int, string, int, test_error) taskfn option" 10] by simp

text \<open>
  C5.  In every state of every run, for every task list, \<open>maxWorkers\<close>, \<^verbatim>\<open>fn\<close> and
  cancellation, the tasks \<^verbatim>\<open>fn\<close> has been invoked on are a sub-multiset of the task list:
  no task is passed to \<^verbatim>\<open>fn\<close> more often than it occurs in the list, so \<^verbatim>\<open>fn\<close> is
  invoked at most \<open>length tasks\<close> times, and on no task twice when the tasks are distinct.
  The same holds of the invocations behind a returned result.
\<close>

theorem C5_at_most_once:
  "(reachable fn tasks maxWorkers s \<longrightarrow>
      mset (calls s) \<subseteq># mset tasks \<and> length (calls s) \<le> length tasks \<and>
      (distinct tasks \<longrightarrow> distinct (calls s))) \<and>
   (RunWorkerPool fn tasks maxWorkers (r, log) \<longrightarrow>
      mset log \<subseteq># mset tasks \<and> length log \<le> length tasks \<and>
      (distinct tasks \<longrightarrow> distinct log))"
proof -
  have sub: "mset xs \<subseteq># mset tasks \<Longrightarrow>
      mset xs \<subseteq># mset tasks \<and> length xs \<le> length tasks \<and> (distinct tasks \<longrightarrow> distinct xs)" for xs
    using size_mset_mono [of "mset xs" "mset tasks"] mset_subseteq_distinct [of xs tasks]
    by auto
  have "mset log \<subseteq># mset tasks" if "RunWorkerPool fn tasks maxWorkers (r, log)"
    using that by (cases rule: RunWorkerPool.cases) (auto dest: reachable_calls)
  then show ?thesis using sub reachable_calls by blast
qed

theorem C5_at_most_once_witness:
  "\<exists>s. reachable (Some fn_ErrorCounting) [1, 2, 3] 5 s \<and> returned s \<and>
       mset (calls s) \<subseteq># mset [1, 2, 3] \<and> length (calls s) \<le> 3 \<and> distinct (calls s)"
proof -
  have ne: "[1, 2, 3] \<noteq> ([] :: int list)" by simp
  obtain s where s: "reachable (Some fn_ErrorCounting) [1, 2, 3] 5 s" "returned s"
    using quiet_run [OF ne] by blast
  have len: "length [1 :: int, 2, 3] = 3" and dist: "distinct [1 :: int, 2, 3]" by simp_all
  from s dist C5_at_most_once [of "Some fn_ErrorCounting" "[1, 2, 3]" 5 s, unfolded len]
  show ?thesis by blast
qed

text \<open>
  C8.  For a non-empty task list the worker count is at most \<open>length tasks\<close>, and equals it
  when \<open>maxWorkers\<close> is greater; so is the number of workers started.
\<close>

theorem C8_workers_at_most_tasks:
  "tasks \<noteq> [] \<Longrightarrow>
     (int (length tasks) < maxWorkers \<longrightarrow> poolWorkers tasks maxWorkers = int (length tasks)) \<and>
     poolWorkers tasks maxWorkers \<le> int (length tasks) \<and>
     length (workers (init_pool tasks maxWorkers :: ('t, 'k, 'v, 'e) pool)) \<le> length tasks \<and>
     (int (length tasks) < maxWorkers \<longrightarrow>
        length (workers (init_pool tasks maxWorkers :: ('t, 'k, 'v, 'e) pool)) = length tasks)"
  by (cases tasks) (auto simp: poolWorkers_def Clamp_def init_pool_def spawned_def)

theorem C8_workers_at_most_tasks_witness:
  "[1, 2] \<noteq> ([] :: int list) \<and> poolWorkers [1 :: int, 2] 100 = 2 \<and>
   length (workers (init_pool [1 :: int, 2] 100 :: (int, string, int, test_error) pool)) = 2"
  using C8_workers_at_most_tasks [of "[1 :: int, 2]" 100,
      where ?'k = string and ?'v = int and ?'e = test_error]
  by simp

text \<open>
  C7.  The claim asks, for the tasks 1 to 10 and the function that errs on the even ones,
  for exactly 5 outcomes that are not nil and exactly 10 invocations of \<^verbatim>\<open>fn\<close>, whatever
  \<open>maxWorkers\<close> is.  For \<open>maxWorkers = 0\<close> the context-aware pool starts no worker (the worker
  count of C2): every run returns, and every run that returns, cancelled or not, has invoked
  \<^verbatim>\<open>fn\<close> on nothing and returns 10 nil errors, so no outcome is not nil.  (With
  \<open>1 \<le> maxWorkers\<close> an uncancelled run does what the claim says: \<open>passed_through_with_worker\<close>,
  \<open>error_counting_with_worker\<close>.)
\<close>

theorem C7_no_worker_nothing_executed:
  "must_return (Some fn_ErrorCounting) 10 (init_pool [1, 2, 3, 4, 5, 6, 7, 8, 9, 10] 0) \<and>
   (\<forall>s. reachable (Some fn_ErrorCounting) [1, 2, 3, 4, 5, 6, 7, 8, 9, 10] 0 s \<and> returned s \<longrightarrow>
        calls s = [] \<and> errs s = replicate 10 None \<and>
        length (filter (\<lambda>e. e \<noteq> None) (errs s)) = 0)"
proof (intro conjI allI impI)
  have ne: "[1, 2, 3, 4, 5, 6, 7, 8, 9, 10] \<noteq> ([] :: int list)" by simp
  have len: "length [1 :: int, 2, 3, 4, 5, 6, 7, 8, 9, 10] = 10" by simp
  show "must_return (Some fn_ErrorCounting) 10 (init_pool [1, 2, 3, 4, 5, 6, 7, 8, 9, 10] 0)"
    using reachable_must_return [OF ne reachable_init, of fn_ErrorCounting 0] unfolding len .
next
  fix s
  assume a: "reachable (Some fn_ErrorCounting) [1, 2, 3, 4, 5, 6, 7, 8, 9, 10] 0 s \<and> returned s"
  have len: "length [1 :: int, 2, 3, 4, 5, 6, 7, 8, 9, 10] = 10" by simp
  have "idle_pool (length [1 :: int, 2, 3, 4, 5, 6, 7, 8, 9, 10]) s"
    using a by (intro reachable_idle_pool [of 0 "Some fn_ErrorCounting"]) simp_all
  with a have c: "calls s = []" and e: "errs s = replicate 10 None"
    unfolding len by (simp_all add: idle_pool_def returned_def)
  from c show "calls s = []" .
  from e show "errs s = replicate 10 None" .
  from e show "length (filter (\<lambda>e. e \<noteq> None) (errs s)) = 0" by simp
qed

theorem C7_no_worker_nothing_executed_witness:
  "\<exists>s. reachable (Some fn_ErrorCounting) [1, 2, 3, 4, 5, 6, 7, 8, 9, 10] 0 s \<and> returned s \<and>
       \<not> cancelled s \<and> calls s = [] \<and> errs s = replicate 10 None \<and>
       length (filter (\<lambda>e. e \<noteq> None) (errs s)) = 0"
proof -
  have ne: "[1, 2, 3, 4, 5, 6, 7, 8, 9, 10] \<noteq> ([] :: int list)" by simp
  obtain s where s: "reachable (Some fn_ErrorCounting) [1, 2, 3, 4, 5, 6, 7, 8, 9, 10] 0 s"
    "returned s" "\<not> cancelled s"
    using quiet_run [OF ne] by blast
  with C7_no_worker_nothing_executed show ?thesis by blast
qed

text \<open>
  C6.  In every state of every run the store of each worker is what one map, empty at the
  worker's start, has become by going through the worker's completed calls of \<^verbatim>\<open>fn\<close> in
  their order: the store is made once, handed to every call and never reset.  So when
  every call adds 1 to a counter key, a worker's counter reads the number of calls the worker
  has completed; with one worker, the call of \<^verbatim>\<open>fn\<close> on the N-th task the pool executes
  leaves the counter at N; and when such a run returns uncancelled the counter reads
  \<open>length tasks\<close>.
\<close>

theorem C6_store_persists:
  assumes "reachable (Some f) tasks maxWorkers s" and "i < length (workers s)"
  shows "store (workers s ! i) = snd (replay f Map.empty (hist (workers s ! i))) \<and>
         (counts_calls k f \<longrightarrow>
            store (workers s ! i) k =
              (if hist (workers s ! i) = [] then None
               else Some (int (length (hist (workers s ! i)))))) \<and>
         (counts_calls k f \<and> spawned tasks maxWorkers = 1 \<longrightarrow>
            (\<forall>t. pc (workers s ! i) = Running t \<longrightarrow>
               snd (f (cancelled s) t (store (workers s ! i))) k = Some (int (length (calls s))))) \<and>
         (counts_calls k f \<and> spawned tasks maxWorkers = 1 \<and> tasks \<noteq> [] \<and>
          returned s \<and> \<not> cancelled s \<longrightarrow>
            store (workers s ! i) k = Some (int (length tasks)))"
proof -
  let ?w = "workers s ! i"
  from reachable_store_kept [OF assms(1)] assms(2)
  have kept: "store ?w = snd (replay f Map.empty (hist ?w))"
    by (auto dest: list_all_nthD simp: store_kept_def)
  have cnt: "store ?w k = (if hist ?w = [] then None else Some (int (length (hist ?w))))"
    if "counts_calls k f"
    using counter_replay [OF that] kept by simp
  have one: "workers s = [?w]" if "spawned tasks maxWorkers = 1"
    using reachable_workers [OF assms(1)] that assms(2) by (cases "workers s") auto
  have run: "snd (f (cancelled s) t (store ?w)) k = Some (int (length (calls s)))"
    if c: "counts_calls k f" and o: "spawned tasks maxWorkers = 1" and p: "pc ?w = Running t" for t
  proof -
    from single_worker_calls [OF assms(1) one [OF o]] p
    have "length (calls s) = length (hist ?w) + 1" by (simp add: running_def)
    moreover from c have "snd (f (cancelled s) t (store ?w)) k
        = Some ((case store ?w k of None \<Rightarrow> 0 | Some v \<Rightarrow> v) + 1)"
      by (simp add: counts_calls_def)
    ultimately show ?thesis using cnt [OF c] by simp
  qed
  have fin: "store ?w k = Some (int (length tasks))"
    if c: "counts_calls k f" and o: "spawned tasks maxWorkers = 1" and ne: "tasks \<noteq> []"
      and ret: "returned s" and nc: "\<not> cancelled s"
  proof -
    from one [OF o] obtain w where w: "workers s = [w]" by blast
    with assms(2) have iw: "?w = w" by simp
    from w have ws: "workers s \<noteq> []" by simp
    from quiet_return [OF assms(1) nc ret ws] have "finished s = mset tasks" by simp
    with w iw have "mset (map snd (hist ?w)) = mset tasks" by (simp add: finished_def)
    then have "length (map snd (hist ?w)) = length tasks" by (rule mset_eq_length)
    with ne cnt [OF c] show ?thesis by auto
  qed
  from kept cnt run fin show ?thesis by blast
qed

theorem C6_store_persists_witness:
  "\<exists>s. reachable (Some fn_StorePersistence) [''a'', ''b'', ''c''] 1 s \<and> returned s \<and>
       \<not> cancelled s \<and> 0 < length (workers s) \<and>
       store (workers s ! 0) = snd (replay fn_StorePersistence Map.empty (hist (workers s ! 0))) \<and>
       store (workers s ! 0) ''sum'' = Some 3"
proof -
  have ne: "[''a'', ''b'', ''c''] \<noteq> ([] :: string list)" by simp
  have one: "spawned [''a'', ''b'', ''c''] 1 = 1"
    by (simp add: spawned_def poolWorkers_def Clamp_def)
  have cc: "counts_calls ''sum'' fn_StorePersistence"
    by (simp add: counts_calls_def fn_StorePersistence_def bump_def)
  obtain s where s: "reachable (Some fn_StorePersistence) [''a'', ''b'', ''c''] 1 s"
    "returned s" "\<not> cancelled s"
    using quiet_run [OF ne] by blast
  from reachable_workers [OF s(1)] one have i: "0 < length (workers s)" by simp
  have len: "int (length [''a'', ''b'', ''c'']) = 3" by simp
  note c6 = C6_store_persists [OF s(1) i, of "''sum''", unfolded len]
  from c6 cc one ne s i show ?thesis by blast
qed

text \<open>
  C10.  With a worker count of 1 (as for \<open>maxWorkers = 1\<close> and any task list that is not
  empty), a run that returns with the context never cancelled returns the outcomes of
  \<^verbatim>\<open>fn\<close> on the tasks in their order of submission: the i-th outcome is what \<^verbatim>\<open>fn\<close>
  returns on the i-th task, given the store the tasks before it have left.
\<close>

theorem C10_single_worker_in_order:
  assumes "tasks \<noteq> []" and "poolWorkers tasks maxWorkers = 1"
    and "reachable (Some f) tasks maxWorkers s" and "returned s" and "\<not> cancelled s"
  shows "errs s = in_order f tasks \<and> poolWorkers tasks 1 = 1 \<and>
         (\<forall>i<length tasks. errs s ! i =
            fst (f False (tasks ! i)
                  (snd (replay f Map.empty (map (Pair False) (take i tasks)))))) \<and>
         ((\<forall>c t st. fst (f c t st) = g t) \<longrightarrow> errs s = map g tasks)"
proof -
  from assms(2) have one: "spawned tasks maxWorkers = 1" by (simp add: spawned_def)
  have e: "errs s = in_order f tasks" using one assms(3,5,4) by (rule seq_return)
  have "poolWorkers tasks 1 = 1"
    using assms(1) by (cases tasks) (auto simp: poolWorkers_def Clamp_def)
  moreover have "errs s = map g tasks" if "\<forall>c t st. fst (f c t st) = g t"
    using that e by (simp add: in_order_def replay_fst_indep [of f g] comp_def)
  ultimately show ?thesis using e in_order_nth [of _ tasks f] by auto
qed

theorem C10_single_worker_in_order_witness:
  "\<exists>s. reachable (Some fn_ErrorCounting) [1, 2, 3, 4] 1 s \<and> returned s \<and> \<not> cancelled s \<and>
       errs s = [None, Some (ErrorOn 2), None, Some (ErrorOn 4)]"
proof -
  have ne: "[1, 2, 3, 4] \<noteq> ([] :: int list)" by simp
  have one: "poolWorkers [1 :: int, 2, 3, 4] 1 = 1" by (simp add: poolWorkers_def Clamp_def)
  obtain s where s: "reachable (Some fn_ErrorCounting) [1, 2, 3, 4] 1 s"
    "returned s" "\<not> cancelled s"
    using quiet_run [OF ne] by blast
  have "in_order fn_ErrorCounting [1, 2, 3, 4] = [None, Some (ErrorOn 2), None, Some (ErrorOn 4)]"
    by (simp add: in_order_def fn_ErrorCounting_def)
  with C10_single_worker_in_order [OF ne one s] s show ?thesis
    by (intro exI [of _ s]) simp
qed

text \<open>
  C9, as stated: once the context is cancelled no step of a run starts a call of \<^verbatim>\<open>fn\<close>.
  It fails for the tasks 1 and 2 with one worker: in the reachable state \<open>cancelled_queued\<close>
  the context is cancelled and the worker's \<^verbatim>\<open>select\<close>, with both cases ready, may take
  the receive and invoke \<^verbatim>\<open>fn\<close> on task 1.
\<close>

theorem C9_counterexample:
  "\<not> (\<forall>s s'. reachable (Some fn_Cancellation) [1, 2] 1 s \<and> cancelled s \<and>
                pool_step (Some fn_Cancellation) (length [1 :: int, 2]) s s' \<longrightarrow>
                calls s' = calls s)"
proof
  assume a: "\<forall>s s'. reachable (Some fn_Cancellation) [1, 2] 1 s \<and> cancelled s \<and>
                pool_step (Some fn_Cancellation) (length [1 :: int, 2]) s s' \<longrightarrow>
                calls s' = calls s"
  let ?s' = "cancelled_queued\<lparr>tasksChan := [],
        workers := (workers cancelled_queued)[0 := (workers cancelled_queued ! 0)\<lparr>pc := Running 1\<rparr>],
        calls := calls cancelled_queued @ [1]\<rparr>"
  have len: "length [1 :: int, 2] = 2" by simp
  have "pool_step (Some fn_Cancellation) (length [1 :: int, 2]) cancelled_queued ?s'"
    unfolding pool_step_def len using cancelled_queued_recv [of fn_Cancellation] by (rule disjI1)
  moreover have "cancelled cancelled_queued" by (simp add: cancelled_queued_def)
  ultimately have "calls ?s' = calls cancelled_queued"
    using a cancelled_queued_reachable [of "Some fn_Cancellation"] by blast
  then show False by simp
qed

text \<open>
  C9, amended.  In every state of every run: once the context is cancelled, a worker at its
  \<^verbatim>\<open>select\<close> can take the cancellation case and exit, a step that invokes nothing and
  writes nothing; a worker that has exited takes no further step; a step that writes an
  outcome is the step of a worker inside a call of \<^verbatim>\<open>fn\<close> on a task it has received, and
  writes what that call returns; and the tasks whose outcomes have been written are among
  the tasks \<^verbatim>\<open>fn\<close> has been invoked on.
\<close>

theorem C9_cancelled_worker_can_exit:
  assumes "reachable (Some f) tasks maxWorkers s"
  shows "(cancelled s \<and> i < length (workers s) \<and> pc (workers s ! i) = Idle \<longrightarrow>
            pool_step (Some f) (length tasks) s
              (s\<lparr>workers := (workers s)[i := (workers s ! i)\<lparr>pc := Exited\<rparr>]\<rparr>)) \<and>
         (\<forall>s'. pool_step (Some f) (length tasks) s s' \<and> i < length (workers s) \<and>
               pc (workers s ! i) = Exited \<longrightarrow> workers s' ! i = workers s ! i) \<and>
         (\<forall>s'. pool_step (Some f) (length tasks) s s' \<and>
               length (errorsChan s) < length (errorsChan s') \<longrightarrow>
               (\<exists>j t. j < length (workers s) \<and> pc (workers s ! j) = Running t \<and>
                  t \<in> set (calls s) \<and>
                  errorsChan s' = errorsChan s @ [fst (f (cancelled s) t (store (workers s ! j)))])) \<and>
         finished s \<subseteq># mset (calls s)"
proof (intro conjI allI impI)
  assume "cancelled s \<and> i < length (workers s) \<and> pc (workers s ! i) = Idle"
  moreover from reachable_safe [OF assms] have "\<not> panicked s" by (simp add: pool_safe_def)
  ultimately show "pool_step (Some f) (length tasks) s
      (s\<lparr>workers := (workers s)[i := (workers s ! i)\<lparr>pc := Exited\<rparr>]\<rparr>)"
    by (simp add: pool_step_def prog_step.work_cancel)
next
  fix s' assume "pool_step (Some f) (length tasks) s s' \<and> i < length (workers s) \<and>
               pc (workers s ! i) = Exited"
  then show "workers s' ! i = workers s ! i"
    by (auto simp: pool_step_def ctx_cancel_def dest: prog_step_exited)
next
  fix s' assume a: "pool_step (Some f) (length tasks) s s' \<and>
               length (errorsChan s) < length (errorsChan s')"
  then have "prog_step (Some f) (length tasks) s s'"
    by (auto simp: pool_step_def ctx_cancel_def)
  from prog_step_writer [OF this] a obtain j t where
    jt: "j < length (workers s)" "pc (workers s ! j) = Running t"
      "errorsChan s' = errorsChan s @ [fst (f (cancelled s) t (store (workers s ! j)))]"
    by blast
  from running_called [OF assms jt(1,2)] jt
  show "\<exists>j t. j < length (workers s) \<and> pc (workers s ! j) = Running t \<and> t \<in> set (calls s) \<and>
           errorsChan s' = errorsChan s @ [fst (f (cancelled s) t (store (workers s ! j)))]"
    by blast
next
  show "finished s \<subseteq># mset (calls s)"
    using finished_subset_started [of s] reachable_started [OF assms] by simp
qed

theorem C9_cancelled_worker_can_exit_witness:
  "reachable (Some fn_Cancellation) [1, 2] 1 cancelled_queued \<and> cancelled cancelled_queued \<and>
   0 < length (workers cancelled_queued) \<and> pc (workers cancelled_queued ! 0) = Idle \<and>
   pool_step (Some fn_Cancellation) 2 cancelled_queued
     (cancelled_queued\<lparr>workers := [newWorker\<lparr>pc := Exited\<rparr>]\<rparr>) \<and>
   finished cancelled_queued \<subseteq># mset (calls cancelled_queued)"
proof -
  have r: "reachable (Some fn_Cancellation) [1, 2] 1 cancelled_queued"
    by (rule cancelled_queued_reachable)
  have c: "cancelled cancelled_queued" "0 < length (workers cancelled_queued)"
    "pc (workers cancelled_queued ! 0) = Idle"
    by (simp_all add: cancelled_queued_def newWorker_def)
  have len: "length [1 :: int, 2] = 2" by simp
  have w: "(workers cancelled_queued)[0 := (workers cancelled_queued ! 0)\<lparr>pc := Exited\<rparr>]
      = [newWorker\<lparr>pc := Exited\<rparr>]"
    by (simp add: cancelled_queued_def)
  from C9_cancelled_worker_can_exit [OF r, of 0, unfolded len w] r c show ?thesis by blast
qed

end
